theory Spec2Isabelle
  imports Main
begin

section \<open>Separate-chaining hash table over a singly linked list\<close>

text \<open>
  The development embeds \<^verbatim>\<open>linkedlist.py\<close> and \<^verbatim>\<open>hashtable.py\<close>.
  A \<^verbatim>\<open>Node\<close> object is a cell of a store; the store of a list is the
  sequence of all nodes the list has ever allocated, and the address of a node is its
  position in that sequence, so \<^verbatim>\<open>Node(item)\<close> allocates at the end of the
  store. Object identity (\<^verbatim>\<open>self.head == self.tail\<close>,
  \<^verbatim>\<open>current_node == self.tail\<close>; \<^verbatim>\<open>Node\<close> defines no
  \<^verbatim>\<open>__eq__\<close>) is equality of addresses. No method of either class hands a
  node to another list, so each list carries its own store.
\<close>

subsection \<open>Errors\<close>

text \<open>
  The exceptions the two classes can raise: \<^verbatim>\<open>ValueError\<close> from the list,
  \<^verbatim>\<open>KeyError\<close> from the table, and \<^verbatim>\<open>ZeroDivisionError\<close> from
  \<^verbatim>\<open>hash(key) % len(self.buckets)\<close> in a table without buckets.
\<close>

datatype error = ValueError | KeyError | ZeroDivisionError

subsection \<open>Nodes and lists\<close>

type_synonym addr = nat

record 'a node =
  data :: 'a
  nxt :: "addr option"

record 'a linkedlist =
  nodes :: "'a node list"
  head :: "addr option"
  tail :: "addr option"
  ll_size :: int

text \<open>\<^verbatim>\<open>LinkedList()\<close> with \<^verbatim>\<open>items=None\<close>.\<close>

definition LinkedList_init :: "'a linkedlist" where
  "LinkedList_init = \<lparr>nodes = [], head = None, tail = None, ll_size = 0\<rparr>"

text \<open>
  The loop of \<^verbatim>\<open>items\<close>. It follows \<^verbatim>\<open>next\<close> until it reads
  \<^verbatim>\<open>None\<close>; on a cyclic store it never returns, which is the value
  \<open>None\<close> here. An address outside the store denotes no object (Python has no
  dangling reference); the model gives no result there either.
\<close>

partial_function (option) items_loop ::
  "'a node list \<Rightarrow> addr option \<Rightarrow> 'a list \<Rightarrow> 'a list option" where
  "items_loop st node its =
     (case node of
        None \<Rightarrow> Some its
      | Some a \<Rightarrow>
          if a < length st
          then items_loop st (nxt (st ! a)) (its @ [data (st ! a)])
          else None)"

definition ll_items :: "'a linkedlist \<Rightarrow> 'a list option" where
  "ll_items l = items_loop (nodes l) (head l) []"

definition ll_is_empty :: "'a linkedlist \<Rightarrow> bool" where
  "ll_is_empty l = (head l = None)"

definition ll_length :: "'a linkedlist \<Rightarrow> int" where
  "ll_length l = ll_size l"

text \<open>
  \<^verbatim>\<open>append\<close>: a node object is always truthy, so \<^verbatim>\<open>if self.tail\<close>
  tests \<^verbatim>\<open>self.tail is not None\<close>.
\<close>

definition ll_append :: "'a linkedlist \<Rightarrow> 'a \<Rightarrow> 'a linkedlist" where
  "ll_append l item =
     (let node = length (nodes l);
          st = nodes l @ [\<lparr>data = item, nxt = None\<rparr>]
      in case tail l of
           Some t \<Rightarrow>
             l\<lparr>nodes := st[t := (st ! t)\<lparr>nxt := Some node\<rparr>],
               tail := Some node, ll_size := ll_size l + 1\<rparr>
         | None \<Rightarrow>
             l\<lparr>nodes := st, head := Some node,
               tail := Some node, ll_size := ll_size l + 1\<rparr>)"

definition ll_prepend :: "'a linkedlist \<Rightarrow> 'a \<Rightarrow> 'a linkedlist" where
  "ll_prepend l item =
     (let node = length (nodes l) in
      if \<not> ll_is_empty l
      then l\<lparr>nodes := nodes l @ [\<lparr>data = item, nxt = head l\<rparr>],
             head := Some node, ll_size := ll_size l + 1\<rparr>
      else l\<lparr>nodes := nodes l @ [\<lparr>data = item, nxt = None\<rparr>],
             tail := Some node, head := Some node, ll_size := ll_size l + 1\<rparr>)"

text \<open>
  The \<^verbatim>\<open>while\<close> loop of \<^verbatim>\<open>delete\<close> in the branch for more than one
  node. A match unlinks the current node and the loop goes on to the end of the list:
  there is no \<^verbatim>\<open>break\<close>. The result is the list and \<^verbatim>\<open>is_found\<close>.
\<close>

definition unlink :: "'a linkedlist \<Rightarrow> addr option \<Rightarrow> addr \<Rightarrow> 'a linkedlist" where
  "unlink l previous_node c =
     (case previous_node of
        None \<Rightarrow> l\<lparr>head := nxt (nodes l ! c)\<rparr>
      | Some p \<Rightarrow>
          if Some c = tail l
          then l\<lparr>tail := Some p, nodes := (nodes l)[p := (nodes l ! p)\<lparr>nxt := None\<rparr>]\<rparr>
          else l\<lparr>nodes := (nodes l)[p := (nodes l ! p)\<lparr>nxt := nxt (nodes l ! c)\<rparr>]\<rparr>)"

partial_function (option) delete_loop ::
  "'a \<Rightarrow> 'a linkedlist \<Rightarrow> addr option \<Rightarrow> addr option \<Rightarrow> bool \<Rightarrow> ('a linkedlist \<times> bool) option"
  where
  "delete_loop item l previous_node current_node is_found =
     (case current_node of
        None \<Rightarrow> Some (l, is_found)
      | Some c \<Rightarrow>
          if c < length (nodes l)
          then if data (nodes l ! c) = item
               then delete_loop item (unlink l previous_node c) (Some c)
                      (nxt (nodes (unlink l previous_node c) ! c)) True
               else delete_loop item l (Some c) (nxt (nodes l ! c)) is_found
          else None)"

text \<open>
  \<^verbatim>\<open>delete\<close> mutates the list before it raises, so the result is the list
  after the call together with the outcome.
\<close>

definition ll_delete :: "'a linkedlist \<Rightarrow> 'a \<Rightarrow> ('a linkedlist \<times> (error + unit)) option" where
  "ll_delete l item =
     (case head l of
        None \<Rightarrow> Some (l, Inl ValueError)
      | Some c \<Rightarrow>
          if head l = tail l
          then if c < length (nodes l)
               then if data (nodes l ! c) = item
                    then Some (l\<lparr>head := None, tail := None, ll_size := ll_size l - 1\<rparr>, Inr ())
                    else Some (l, Inl ValueError)
               else None
          else (case delete_loop item l None (head l) False of
                  None \<Rightarrow> None
                | Some (l', is_found) \<Rightarrow>
                    Some (l'\<lparr>ll_size := ll_size l' - 1\<rparr>,
                          if is_found then Inr () else Inl ValueError)))"

partial_function (option) replace_loop ::
  "'a node list \<Rightarrow> addr option \<Rightarrow> 'a \<Rightarrow> 'a \<Rightarrow> ('a node list \<times> (error + unit)) option"
  where
  "replace_loop st current_node item new_data =
     (case current_node of
        None \<Rightarrow> Some (st, Inl ValueError)
      | Some c \<Rightarrow>
          if c < length st
          then if data (st ! c) = item
               then Some (st[c := (st ! c)\<lparr>data := new_data\<rparr>], Inr ())
               else replace_loop st (nxt (st ! c)) item new_data
          else None)"

definition ll_replace ::
  "'a linkedlist \<Rightarrow> 'a \<Rightarrow> 'a \<Rightarrow> ('a linkedlist \<times> (error + unit)) option" where
  "ll_replace l item new_data =
     (case replace_loop (nodes l) (head l) item new_data of
        None \<Rightarrow> None
      | Some (st, r) \<Rightarrow> Some (l\<lparr>nodes := st\<rparr>, r))"

subsection \<open>The hash table\<close>

record ('k, 'v) hashtable =
  buckets :: "('k \<times> 'v) linkedlist list"
  ht_size :: int

text \<open>
  \<^verbatim>\<open>[LinkedList() for _ in range(init_size)]\<close>: \<^verbatim>\<open>range\<close> of a
  number below one is empty, so the table then has no bucket at all.
\<close>

definition HashTable_init :: "int \<Rightarrow> ('k, 'v) hashtable" where
  "HashTable_init init_size =
     \<lparr>buckets = replicate (nat init_size) LinkedList_init, ht_size = 0\<rparr>"

text \<open>
  \<^verbatim>\<open>hash(key) % len(self.buckets)\<close>. The built-in \<^verbatim>\<open>hash\<close> is the
  parameter \<open>h\<close>. Python's \<^verbatim>\<open>%\<close> with a positive right operand is HOL's
  \<open>mod\<close> on \<open>int\<close> (the result is never negative), and with right operand zero
  it raises.
\<close>

definition bucket_index :: "('k \<Rightarrow> int) \<Rightarrow> ('k, 'v) hashtable \<Rightarrow> 'k \<Rightarrow> error + nat" where
  "bucket_index h t key =
     (if length (buckets t) = 0 then Inl ZeroDivisionError
      else Inr (nat (h key mod int (length (buckets t)))))"

text \<open>
  \<^verbatim>\<open>items\<close>: \<^verbatim>\<open>all_items.extend(bucket.items())\<close> for each bucket in
  order.
\<close>

fun items_buckets :: "'a linkedlist list \<Rightarrow> 'a list \<Rightarrow> 'a list option" where
  "items_buckets [] all_items = Some all_items"
| "items_buckets (bucket # rest) all_items =
     (case ll_items bucket of
        None \<Rightarrow> None
      | Some its \<Rightarrow> items_buckets rest (all_items @ its))"

definition ht_items :: "('k, 'v) hashtable \<Rightarrow> ('k \<times> 'v) list option" where
  "ht_items t = items_buckets (buckets t) []"

definition ht_length :: "('k, 'v) hashtable \<Rightarrow> int" where
  "ht_length t = ht_size t"

text \<open>
  The four point operations run the same loop over the snapshot
  \<^verbatim>\<open>specific_bucket.items()\<close>:
  \<^verbatim>\<open>for other_key, other_value in ...: if other_key == key: ...; return\<close>.
  \<open>first_match\<close> is the pair at which the test first succeeds, if any.
\<close>

fun first_match :: "('k \<times> 'v) list \<Rightarrow> 'k \<Rightarrow> ('k \<times> 'v) option" where
  "first_match [] key = None"
| "first_match ((other_key, other_value) # rest) key =
     (if other_key = key then Some (other_key, other_value) else first_match rest key)"

definition ht_contains ::
  "('k \<Rightarrow> int) \<Rightarrow> ('k, 'v) hashtable \<Rightarrow> 'k \<Rightarrow> (error + bool) option" where
  "ht_contains h t key =
     (case bucket_index h t key of
        Inl e \<Rightarrow> Some (Inl e)
      | Inr i \<Rightarrow>
          (case ll_items (buckets t ! i) of
             None \<Rightarrow> None
           | Some its \<Rightarrow>
               (case first_match its key of
                  Some (other_key, other_value) \<Rightarrow> Some (Inr True)
                | None \<Rightarrow> Some (Inr False))))"

definition ht_get ::
  "('k \<Rightarrow> int) \<Rightarrow> ('k, 'v) hashtable \<Rightarrow> 'k \<Rightarrow> (error + 'v) option" where
  "ht_get h t key =
     (case bucket_index h t key of
        Inl e \<Rightarrow> Some (Inl e)
      | Inr i \<Rightarrow>
          (case ll_items (buckets t ! i) of
             None \<Rightarrow> None
           | Some its \<Rightarrow>
               (case first_match its key of
                  Some (other_key, val) \<Rightarrow> Some (Inr val)
                | None \<Rightarrow> Some (Inl KeyError))))"

text \<open>
  \<^verbatim>\<open>set\<close> and \<^verbatim>\<open>delete\<close> return the table after the call and the
  outcome. An exception of the list operation passes through the table method, which
  then has not touched \<^verbatim>\<open>self.size\<close>.
\<close>

definition ht_set ::
  "('k \<Rightarrow> int) \<Rightarrow> ('k, 'v) hashtable \<Rightarrow> 'k \<Rightarrow> 'v \<Rightarrow> (('k, 'v) hashtable \<times> (error + unit)) option"
  where
  "ht_set h t key val =
     (case bucket_index h t key of
        Inl e \<Rightarrow> Some (t, Inl e)
      | Inr i \<Rightarrow>
          (case ll_items (buckets t ! i) of
             None \<Rightarrow> None
           | Some its \<Rightarrow>
               (case first_match its key of
                  Some (other_key, other_value) \<Rightarrow>
                    (case ll_replace (buckets t ! i) (other_key, other_value) (key, val) of
                       None \<Rightarrow> None
                     | Some (b, r) \<Rightarrow> Some (t\<lparr>buckets := (buckets t)[i := b]\<rparr>, r))
                | None \<Rightarrow>
                    Some (t\<lparr>buckets := (buckets t)[i := ll_append (buckets t ! i) (key, val)],
                            ht_size := ht_size t + 1\<rparr>, Inr ()))))"

definition ht_delete ::
  "('k \<Rightarrow> int) \<Rightarrow> ('k, 'v) hashtable \<Rightarrow> 'k \<Rightarrow> (('k, 'v) hashtable \<times> (error + unit)) option"
  where
  "ht_delete h t key =
     (case bucket_index h t key of
        Inl e \<Rightarrow> Some (t, Inl e)
      | Inr i \<Rightarrow>
          (case ll_items (buckets t ! i) of
             None \<Rightarrow> None
           | Some its \<Rightarrow>
               (case first_match its key of
                  Some (other_key, other_value) \<Rightarrow>
                    (case ll_delete (buckets t ! i) (other_key, other_value) of
                       None \<Rightarrow> None
                     | Some (b, Inl e) \<Rightarrow> Some (t\<lparr>buckets := (buckets t)[i := b]\<rparr>, Inl e)
                     | Some (b, Inr u) \<Rightarrow>
                         Some (t\<lparr>buckets := (buckets t)[i := b],
                                 ht_size := ht_size t - 1\<rparr>, Inr ()))
                | None \<Rightarrow> Some (t, Inl KeyError))))"

text \<open>
  The special methods \<^verbatim>\<open>__setitem__\<close>, \<^verbatim>\<open>__getitem__\<close>,
  \<^verbatim>\<open>__contains__\<close> and \<^verbatim>\<open>__len__\<close>.
\<close>

definition ht_setitem ::
  "('k \<Rightarrow> int) \<Rightarrow> ('k, 'v) hashtable \<Rightarrow> 'k \<Rightarrow> 'v \<Rightarrow> (('k, 'v) hashtable \<times> (error + unit)) option"
  where
  "ht_setitem h t key val = ht_set h t key val"

definition ht_getitem ::
  "('k \<Rightarrow> int) \<Rightarrow> ('k, 'v) hashtable \<Rightarrow> 'k \<Rightarrow> (error + 'v) option" where
  "ht_getitem h t key = ht_get h t key"

definition ht_contains_op ::
  "('k \<Rightarrow> int) \<Rightarrow> ('k, 'v) hashtable \<Rightarrow> 'k \<Rightarrow> (error + bool) option" where
  "ht_contains_op h t key = ht_contains h t key"

definition ht_len :: "('k, 'v) hashtable \<Rightarrow> int" where
  "ht_len t = ht_size t"

subsection \<open>Well-formed lists, table invariant, reachable states\<close>

text \<open>
  \<open>lseg st p as q\<close>: following \<^verbatim>\<open>next\<close> from the reference \<open>p\<close> visits the
  nodes at the addresses \<open>as\<close>, in this order, and arrives at the reference \<open>q\<close>.
\<close>

fun lseg :: "'a node list \<Rightarrow> addr option \<Rightarrow> addr list \<Rightarrow> addr option \<Rightarrow> bool" where
  "lseg st p [] q = (p = q)"
| "lseg st p (a # as) q = (p = Some a \<and> a < length st \<and> lseg st (nxt (st ! a)) as q)"

definition entries :: "'a node list \<Rightarrow> addr list \<Rightarrow> 'a list" where
  "entries st as = map (\<lambda>a. data (st ! a)) as"

text \<open>
  A list is well formed over the addresses \<open>as\<close> when its nodes, from
  \<^verbatim>\<open>head\<close> to the first \<^verbatim>\<open>None\<close>, are \<open>as\<close>, no node occurs twice,
  and \<^verbatim>\<open>tail\<close> is the last of them (\<^verbatim>\<open>None\<close> when there is none).
\<close>

definition wf_chain :: "'a linkedlist \<Rightarrow> addr list \<Rightarrow> bool" where
  "wf_chain l as =
     (lseg (nodes l) (head l) as None \<and> distinct as \<and>
      tail l = (if as = [] then None else Some (last as)))"

text \<open>
  The invariant of bucket \<open>i\<close> of a table with \<open>n\<close> buckets: a well-formed list
  whose keys are pairwise distinct and all belong to bucket \<open>i\<close>, with a count that is
  its number of nodes.
\<close>

definition bucket_inv :: "('k \<Rightarrow> int) \<Rightarrow> nat \<Rightarrow> nat \<Rightarrow> ('k \<times> 'v) linkedlist \<Rightarrow> bool" where
  "bucket_inv h n i b =
     (\<exists>as. wf_chain b as \<and>
           distinct (map fst (entries (nodes b) as)) \<and>
           (\<forall>e \<in> set (entries (nodes b) as). nat (h (fst e) mod int n) = i) \<and>
           ll_size b = int (length as))"

definition table_inv :: "('k \<Rightarrow> int) \<Rightarrow> ('k, 'v) hashtable \<Rightarrow> bool" where
  "table_inv h t =
     ((\<forall>i < length (buckets t). bucket_inv h (length (buckets t)) i (buckets t ! i)) \<and>
      ht_size t = sum_list (map ll_size (buckets t)))"

text \<open>
  The states of a table: what the constructor returns, and what a call of
  \<^verbatim>\<open>set\<close> or \<^verbatim>\<open>delete\<close> leaves behind, whether it returned or raised.
\<close>

inductive reachable :: "('k \<Rightarrow> int) \<Rightarrow> ('k, 'v) hashtable \<Rightarrow> bool" for h where
  reachable_init: "reachable h (HashTable_init init_size)"
| reachable_set: "reachable h t \<Longrightarrow> ht_set h t key val = Some (t', r) \<Longrightarrow> reachable h t'"
| reachable_delete: "reachable h t \<Longrightarrow> ht_delete h t key = Some (t', r) \<Longrightarrow> reachable h t'"

subsection \<open>Concrete lists\<close>

text \<open>
  \<^verbatim>\<open>LinkedList(['A', 'B'])\<close>, \<^verbatim>\<open>LinkedList(['A'])\<close> and
  \<^verbatim>\<open>LinkedList(['A', 'B', 'A'])\<close>: the constructor appends the items in order.
\<close>

definition chain_A :: "string linkedlist" where
  "chain_A = ll_append LinkedList_init ''A''"

definition chain_AB :: "string linkedlist" where
  "chain_AB = ll_append (ll_append LinkedList_init ''A'') ''B''"

definition chain_ABA :: "string linkedlist" where
  "chain_ABA = ll_append (ll_append (ll_append LinkedList_init ''A'') ''B'') ''A''"

text \<open>
  \<^verbatim>\<open>LinkedList(['A', 'A'])\<close>, and the same list after \<^verbatim>\<open>delete('A')\<close>:
  the loop unlinks the first node, then takes the second for the last one and moves
  \<^verbatim>\<open>tail\<close> back to the first, which is no longer in the list.
\<close>

definition chain_AA :: "string linkedlist" where
  "chain_AA = ll_append (ll_append LinkedList_init ''A'') ''A''"

definition chain_AA_deleted :: "string linkedlist" where
  "chain_AA_deleted =
     \<lparr>nodes = [\<lparr>data = ''A'', nxt = None\<rparr>, \<lparr>data = ''A'', nxt = None\<rparr>],
      head = Some 1, tail = Some 0, ll_size = 1\<rparr>"

subsection \<open>Concrete tables\<close>

text \<open>
  The hash of the examples: CPython's \<^verbatim>\<open>hash\<close> of an \<^verbatim>\<open>int\<close> of small
  absolute value (other than \<^verbatim>\<open>-1\<close>) is the number itself; the examples use
  such keys only.
\<close>

definition hash_int :: "int \<Rightarrow> int" where
  "hash_int k = k"

text \<open>
  \<^verbatim>\<open>HashTable(0)\<close>, \<^verbatim>\<open>HashTable(2)\<close>, and \<^verbatim>\<open>HashTable(2)\<close>
  after \<^verbatim>\<open>set(1, 5)\<close>.
\<close>

definition table_none :: "(int, int) hashtable" where
  "table_none = HashTable_init 0"

definition table_empty :: "(int, int) hashtable" where
  "table_empty = HashTable_init 2"

definition table_one :: "(int, int) hashtable" where
  "table_one = \<lparr>buckets = [LinkedList_init, ll_append LinkedList_init (1, 5)], ht_size = 1\<rparr>"


section \<open>Lists in the store\<close>

lemma entries_simps [simp]:
  "entries st [] = []"
  "entries st (a # as) = data (st ! a) # entries st as"
  "entries st (as @ bs) = entries st as @ entries st bs"
  "length (entries st as) = length as"
  by (simp_all add: entries_def)

lemma lseg_append:
  "lseg st p (as @ bs) q = (\<exists>r. lseg st p as r \<and> lseg st r bs q)"
  by (induction as arbitrary: p) auto

lemma lseg_in_range: "lseg st p as q \<Longrightarrow> a \<in> set as \<Longrightarrow> a < length st"
  by (induction as arbitrary: p) auto

lemma lseg_update:
  "a \<notin> set as \<Longrightarrow> lseg (st[a := n]) p as q = lseg st p as q"
  by (induction as arbitrary: p) auto

lemma lseg_data_update:
  "lseg (st[c := (st ! c)\<lparr>data := d\<rparr>]) p as q = lseg st p as q"
proof (induction as arbitrary: p)
  case Nil
  show ?case by simp
next
  case (Cons a as)
  show ?case
    by (cases "a = c"; cases "c < length st") (simp_all add: Cons.IH)
qed

lemma lseg_extend: "lseg st p as q \<Longrightarrow> lseg (st @ ns) p as q"
  by (induction as arbitrary: p) (auto simp: nth_append)

lemma entries_update: "a \<notin> set as \<Longrightarrow> entries (st[a := n]) as = entries st as"
  by (induction as) auto

lemma entries_extend:
  "\<forall>a\<in>set as. a < length st \<Longrightarrow> entries (st @ ns) as = entries st as"
  by (induction as) (auto simp: nth_append)

lemma lseg_last_nxt:
  "lseg st p (as @ [a]) q \<Longrightarrow> nxt (st ! a) = q \<and> a < length st"
  by (induction as arbitrary: p) auto

lemma lseg_unique: "lseg st p as None \<Longrightarrow> lseg st p bs None \<Longrightarrow> as = bs"
proof (induction as arbitrary: p bs)
  case Nil
  then show ?case by (cases bs) auto
next
  case (Cons a as)
  then show ?case by (cases bs) auto
qed

lemma items_loop_lseg:
  "lseg st p as None \<Longrightarrow> items_loop st p its = Some (its @ entries st as)"
proof (induction as arbitrary: p its)
  case Nil
  then show ?case by (simp add: items_loop.simps)
next
  case (Cons a as)
  then show ?case by (subst items_loop.simps) simp
qed

lemma items_loop_Some:
  assumes "items_loop st p its = Some ys"
  shows "\<exists>as. lseg st p as None \<and> ys = its @ entries st as"
proof (rule items_loop.raw_induct[OF _ assms])
  fix f and st :: "'a node list" and node its ys
  assume IH: "\<And>st node its ys. f st node its = Some ys \<Longrightarrow>
          \<exists>as. lseg st node as None \<and> ys = its @ entries st as"
    and eq: "(case node of None \<Rightarrow> Some its
      | Some a \<Rightarrow> if a < length st then f st (nxt (st ! a)) (its @ [data (st ! a)]) else None) = Some ys"
  show "\<exists>as. lseg st node as None \<and> ys = its @ entries st as"
  proof (cases node)
    case None
    with eq show ?thesis by (auto intro: exI[of _ "[]"])
  next
    case (Some a)
    with eq have lt: "a < length st" and
      rec: "f st (nxt (st ! a)) (its @ [data (st ! a)]) = Some ys"
      by (auto split: if_splits)
    from IH[OF rec] obtain as where "lseg st (nxt (st ! a)) as None"
      "ys = (its @ [data (st ! a)]) @ entries st as" by blast
    with Some lt show ?thesis by (auto intro!: exI[of _ "a # as"])
  qed
qed

lemma wf_chain_items: "wf_chain l as \<Longrightarrow> ll_items l = Some (entries (nodes l) as)"
  using items_loop_lseg[of "nodes l" "head l" as "[]"] by (simp add: wf_chain_def ll_items_def)

subsection \<open>The loop of delete\<close>

lemma delete_loop_skip:
  "lseg (nodes l) cur pre q \<Longrightarrow> item \<notin> set (entries (nodes l) pre) \<Longrightarrow>
   delete_loop item l prev cur f =
   delete_loop item l (if pre = [] then prev else Some (last pre)) q f"
proof (induction pre arbitrary: prev cur)
  case Nil
  then show ?case by simp
next
  case (Cons a pre)
  from Cons.prems have a: "cur = Some a" "a < length (nodes l)" "data (nodes l ! a) \<noteq> item"
    and rest: "lseg (nodes l) (nxt (nodes l ! a)) pre q" "item \<notin> set (entries (nodes l) pre)"
    by auto
  have "delete_loop item l prev cur f = delete_loop item l (Some a) (nxt (nodes l ! a)) f"
    using a by (subst delete_loop.simps) simp
  also have "\<dots> = delete_loop item l (if pre = [] then Some a else Some (last pre)) q f"
    by (rule Cons.IH[OF rest])
  finally show ?case by simp
qed

lemma delete_loop_no_match:
  "lseg (nodes l) cur as None \<Longrightarrow> item \<notin> set (entries (nodes l) as) \<Longrightarrow>
   delete_loop item l prev cur f = Some (l, f)"
proof -
  assume "lseg (nodes l) cur as None" "item \<notin> set (entries (nodes l) as)"
  then have "delete_loop item l prev cur f =
      delete_loop item l (if as = [] then prev else Some (last as)) None f"
    by (rule delete_loop_skip)
  also have "\<dots> = Some (l, f)"
    by (subst delete_loop.simps) simp
  finally show ?thesis .
qed


subsection \<open>append and prepend keep a list well formed\<close>

lemma wf_chain_last:
  "wf_chain l (as @ [a]) \<Longrightarrow> tail l = Some a \<and> a < length (nodes l) \<and> nxt (nodes l ! a) = None \<and> a \<notin> set as"
  using lseg_last_nxt[of "nodes l" "head l" as a None] by (auto simp: wf_chain_def)

lemma wf_chain_range: "wf_chain l as \<Longrightarrow> a \<in> set as \<Longrightarrow> a < length (nodes l)"
  by (auto simp: wf_chain_def dest: lseg_in_range)

lemma ll_append_wf:
  assumes "wf_chain l as"
  shows "wf_chain (ll_append l x) (as @ [length (nodes l)])"
    and "entries (nodes (ll_append l x)) (as @ [length (nodes l)]) = entries (nodes l) as @ [x]"
    and "ll_size (ll_append l x) = ll_size l + 1"
proof -
  let ?n = "length (nodes l)"
  let ?st = "nodes l @ [\<lparr>data = x, nxt = None\<rparr>]"
  have fresh: "?n \<notin> set as" using wf_chain_range[OF assms] by auto
  have range: "\<forall>a\<in>set as. a < ?n" using wf_chain_range[OF assms] by auto
  show "ll_size (ll_append l x) = ll_size l + 1"
    by (simp add: ll_append_def Let_def split: option.split)
  show "wf_chain (ll_append l x) (as @ [?n])"
  proof (cases as rule: rev_cases)
    case Nil
    with assms show ?thesis
      by (simp add: wf_chain_def ll_append_def Let_def)
  next
    case (snoc bs t)
    from wf_chain_last[OF assms[unfolded snoc]]
    have t: "tail l = Some t" "t < ?n" "nxt (nodes l ! t) = None" "t \<notin> set bs" by auto
    from assms snoc have seg: "lseg (nodes l) (head l) bs (Some t)"
      by (auto simp: wf_chain_def lseg_append)
    have "lseg (?st[t := (?st ! t)\<lparr>nxt := Some ?n\<rparr>]) (head l) bs (Some t)"
      using seg t by (simp add: lseg_update lseg_extend)
    then have "lseg (?st[t := (?st ! t)\<lparr>nxt := Some ?n\<rparr>]) (head l) (bs @ [t] @ [?n]) None"
      using t by (simp add: lseg_append nth_append)
    then show ?thesis
      using t fresh assms snoc by (simp add: wf_chain_def ll_append_def Let_def)
  qed
  show "entries (nodes (ll_append l x)) (as @ [?n]) = entries (nodes l) as @ [x]"
  proof (cases as rule: rev_cases)
    case Nil
    with assms show ?thesis
      by (simp add: wf_chain_def ll_append_def Let_def)
  next
    case (snoc bs t)
    from wf_chain_last[OF assms[unfolded snoc]]
    have t: "tail l = Some t" "t < ?n" "nxt (nodes l ! t) = None" "t \<notin> set bs" by auto
    have "entries (?st[t := (?st ! t)\<lparr>nxt := Some ?n\<rparr>]) bs = entries (nodes l) bs"
      using t range snoc by (simp add: entries_update entries_extend)
    then show ?thesis
      using t snoc by (simp add: ll_append_def Let_def nth_append)
  qed
qed

lemma ll_prepend_wf:
  assumes "wf_chain l as"
  shows "wf_chain (ll_prepend l x) (length (nodes l) # as)"
    and "entries (nodes (ll_prepend l x)) (length (nodes l) # as) = x # entries (nodes l) as"
    and "ll_size (ll_prepend l x) = ll_size l + 1"
proof -
  let ?n = "length (nodes l)"
  have fresh: "?n \<notin> set as" using wf_chain_range[OF assms] by auto
  have range: "\<forall>a\<in>set as. a < ?n" using wf_chain_range[OF assms] by auto
  have empty: "ll_is_empty l \<longleftrightarrow> as = []"
    using assms by (cases as) (auto simp: ll_is_empty_def wf_chain_def)
  show "ll_size (ll_prepend l x) = ll_size l + 1"
    by (simp add: ll_prepend_def Let_def)
  show "wf_chain (ll_prepend l x) (?n # as)"
    using assms fresh empty
    by (auto simp: wf_chain_def ll_prepend_def Let_def lseg_extend)
  show "entries (nodes (ll_prepend l x)) (?n # as) = x # entries (nodes l) as"
    using range by (simp add: ll_prepend_def Let_def entries_extend)
qed


subsection \<open>replace\<close>

lemma replace_loop_no_match:
  "lseg st p as None \<Longrightarrow> item \<notin> set (entries st as) \<Longrightarrow>
   replace_loop st p item new = Some (st, Inl ValueError)"
proof (induction as arbitrary: p)
  case Nil
  then show ?case by (subst replace_loop.simps) simp
next
  case (Cons a as)
  then show ?case by (subst replace_loop.simps) auto
qed

lemma replace_loop_match:
  "lseg st p (pre @ c # post) None \<Longrightarrow> item \<notin> set (entries st pre) \<Longrightarrow>
   data (st ! c) = item \<Longrightarrow>
   replace_loop st p item new = Some (st[c := (st ! c)\<lparr>data := new\<rparr>], Inr ())"
proof (induction pre arbitrary: p)
  case Nil
  then show ?case by (subst replace_loop.simps) simp
next
  case (Cons a pre)
  then show ?case by (subst replace_loop.simps) auto
qed

lemma ll_replace_absent:
  assumes "wf_chain l as" "item \<notin> set (entries (nodes l) as)"
  shows "ll_replace l item new = Some (l, Inl ValueError)"
  using assms replace_loop_no_match[of "nodes l" "head l" as item new]
  by (simp add: ll_replace_def wf_chain_def)

lemma ll_replace_present:
  assumes wf: "wf_chain l as"
    and split: "entries (nodes l) as = xs @ item # ys" "item \<notin> set xs"
  shows "\<exists>l'. ll_replace l item new = Some (l', Inr ()) \<and> wf_chain l' as \<and>
           entries (nodes l') as = xs @ new # ys \<and> ll_size l' = ll_size l"
proof -
  let ?st = "nodes l"
  define pre where "pre = take (length xs) as"
  define c where "c = as ! length xs"
  define post where "post = drop (Suc (length xs)) as"
  have len: "length xs < length as"
    using arg_cong[OF split(1), of length] by simp
  then have as: "as = pre @ c # post"
    by (simp add: pre_def c_def post_def id_take_nth_drop)
  have lpre: "length pre = length xs" using len by (simp add: pre_def)
  from split(1) have e: "entries ?st pre = xs" "data (?st ! c) = item" "entries ?st post = ys"
    using lpre unfolding as by (auto simp: append_eq_append_conv)
  from wf have dist: "c \<notin> set pre" "c \<notin> set post" and c: "c < length ?st"
    and seg: "lseg ?st (head l) (pre @ c # post) None"
    unfolding as by (auto simp: wf_chain_def lseg_append)
  let ?st' = "?st[c := (?st ! c)\<lparr>data := new\<rparr>]"
  have r: "replace_loop ?st (head l) item new = Some (?st', Inr ())"
    using replace_loop_match[OF seg _ e(2)] e(1) split(2) by simp
  have "lseg ?st' (head l) as None"
    using wf by (simp add: lseg_data_update wf_chain_def)
  moreover have "entries ?st' as = xs @ new # ys"
    unfolding as using dist e c by (simp add: entries_update)
  ultimately show ?thesis
    using r wf by (simp add: ll_replace_def wf_chain_def)
qed

subsection \<open>delete of an entry that occurs once\<close>

lemma unlink_frame: "length (nodes (unlink l prev c)) = length (nodes l)"
  by (simp add: unlink_def split: option.split)

lemma ll_delete_single:
  assumes wf: "wf_chain l as"
    and split: "entries (nodes l) as = xs @ item # ys" "item \<notin> set xs" "item \<notin> set ys"
  shows "\<exists>l' as'. ll_delete l item = Some (l', Inr ()) \<and> wf_chain l' as' \<and>
           entries (nodes l') as' = xs @ ys \<and> length as' + 1 = length as \<and>
           ll_size l' = ll_size l - 1"
proof -
  let ?st = "nodes l"
  define pre where "pre = take (length xs) as"
  define c where "c = as ! length xs"
  define post where "post = drop (Suc (length xs)) as"
  have len: "length xs < length as"
    using arg_cong[OF split(1), of length] by simp
  then have as: "as = pre @ c # post"
    by (simp add: pre_def c_def post_def id_take_nth_drop)
  have lpre: "length pre = length xs" using len by (simp add: pre_def)
  from split(1) have e: "entries ?st pre = xs" "data (?st ! c) = item" "entries ?st post = ys"
    using lpre unfolding as by (auto simp: append_eq_append_conv)
  from wf have dist: "c \<notin> set pre" "c \<notin> set post" "distinct pre" "distinct post"
    "set pre \<inter> set post = {}" and c: "c < length ?st"
    and seg: "lseg ?st (head l) (pre @ c # post) None"
    unfolding as by (auto simp: wf_chain_def lseg_append)
  from seg obtain seg_pre: "lseg ?st (head l) pre (Some c)"
    and seg_post: "lseg ?st (nxt (?st ! c)) post None"
    by (auto simp: lseg_append)
  from wf have tl: "tail l = Some (last (c # post))" unfolding as by (simp add: wf_chain_def)
  show ?thesis
  proof (cases "pre = [] \<and> post = []")
    case True
    with as have as1: "as = [c]" by simp
    from True e have xy: "xs = []" "ys = []" by auto
    from seg tl True have ht: "head l = Some c" "tail l = Some c" by auto
    have "ll_delete l item = Some (l\<lparr>head := None, tail := None, ll_size := ll_size l - 1\<rparr>, Inr ())"
      using ht c e(2) by (simp add: ll_delete_def)
    moreover have "wf_chain (l\<lparr>head := None, tail := None, ll_size := ll_size l - 1\<rparr>) []"
      by (simp add: wf_chain_def)
    ultimately show ?thesis
      unfolding as1 xy by (intro exI[of _ "l\<lparr>head := None, tail := None, ll_size := ll_size l - 1\<rparr>"] exI[of _ "[]"]) simp
  next
    case False
    have hd_ne: "head l \<noteq> tail l"
    proof (cases pre)
      case Nil
      with False seg dist tl show ?thesis by auto
    next
      case (Cons a pre')
      with seg dist tl show ?thesis by (cases "post = []") auto
    qed
    have skip: "delete_loop item l None (head l) False =
        delete_loop item l (if pre = [] then None else Some (last pre)) (Some c) False"
      using delete_loop_skip[OF seg_pre, of item None False] e split by simp
    define prev where "prev = (if pre = [] then None else Some (last pre))"
    define l1 where "l1 = unlink l prev c"
    have step: "delete_loop item l prev (Some c) False =
        delete_loop item l1 (Some c) (nxt (nodes l1 ! c)) True"
      using c e by (subst delete_loop.simps) (simp add: l1_def)
    have l1: "wf_chain l1 (pre @ post) \<and> entries (nodes l1) (pre @ post) = xs @ ys \<and>
        lseg (nodes l1) (nxt (nodes l1 ! c)) post None \<and> entries (nodes l1) post = ys \<and>
        ll_size l1 = ll_size l"
    proof (cases pre rule: rev_cases)
      case Nil
      with False have post: "post \<noteq> []" by simp
      from Nil have l1_eq: "l1 = l\<lparr>head := nxt (?st ! c)\<rparr>"
        by (simp add: l1_def prev_def unlink_def)
      from e(1) Nil have xs: "xs = []" by simp
      from tl post have "tail l = Some (last post)" by simp
      with seg_post dist(4) post have "wf_chain l1 post"
        by (simp add: l1_eq wf_chain_def)
      with seg_post e(3) show ?thesis
        by (simp add: Nil xs l1_eq)
    next
      case (snoc pre' p)
      then have prev: "prev = Some p" by (simp add: prev_def)
      from seg_pre have sp': "lseg ?st (head l) (pre' @ [p]) (Some c)"
        unfolding snoc .
      then obtain r where "lseg ?st (head l) pre' r" "lseg ?st r [p] (Some c)"
        unfolding lseg_append by blast
      then have segp: "lseg ?st (head l) pre' (Some p)" and p: "p < length ?st"
        by simp_all
      from dist(3) have "p \<notin> set pre'" unfolding snoc by simp
      moreover from dist(5) have "p \<notin> set post" unfolding snoc by simp
      moreover from dist(1) have "p \<noteq> c" unfolding snoc by auto
      ultimately have pd: "p \<notin> set pre'" "p \<notin> set post" "p \<noteq> c" .
      show ?thesis
      proof (cases "post = []")
        case True
        let ?st1 = "?st[p := (?st ! p)\<lparr>nxt := None\<rparr>]"
        from True tl have l1_eq: "l1 = l\<lparr>tail := Some p, nodes := ?st1\<rparr>"
          by (simp add: l1_def prev unlink_def)
        have "lseg ?st1 (head l) (pre' @ [p]) None"
          using segp pd p by (simp add: lseg_append lseg_update)
        moreover have "entries ?st1 (pre' @ [p]) = xs"
          using e(1) pd p unfolding snoc by (simp add: entries_update)
        moreover have "nxt (?st1 ! c) = None"
          using pd seg_post True by simp
        ultimately show ?thesis
          using True snoc dist e by (simp add: l1_eq wf_chain_def)
      next
        case post: False
        let ?st1 = "?st[p := (?st ! p)\<lparr>nxt := nxt (?st ! c)\<rparr>]"
        from post tl dist have "Some c \<noteq> tail l" by auto
        then have l1_eq: "l1 = l\<lparr>nodes := ?st1\<rparr>"
          by (simp add: l1_def prev unlink_def)
        have sp: "lseg ?st1 (nxt (?st ! c)) post None"
          using seg_post pd by (simp add: lseg_update)
        have "lseg ?st1 (head l) (pre' @ [p] @ post) None"
          using segp pd p sp by (simp add: lseg_append lseg_update)
        moreover have "entries ?st1 (pre' @ [p] @ post) = xs @ ys"
          using e pd p unfolding snoc by (simp add: entries_update)
        moreover have "nxt (?st1 ! c) = nxt (?st ! c)" using pd by simp
        moreover have "entries ?st1 post = ys" using e pd by (simp add: entries_update)
        ultimately show ?thesis
          using post snoc dist sp tl by (simp add: l1_eq wf_chain_def)
      qed
    qed
    from l1 have l1_seg: "lseg (nodes l1) (nxt (nodes l1 ! c)) post None"
      and l1_ent: "entries (nodes l1) post = ys"
      and l1_wf: "wf_chain l1 (pre @ post)"
      and l1_all: "entries (nodes l1) (pre @ post) = xs @ ys"
      and l1_size: "ll_size l1 = ll_size l"
      by blast+
    from split(3) l1_ent have nm: "item \<notin> set (entries (nodes l1) post)" by simp
    have rest: "delete_loop item l1 (Some c) (nxt (nodes l1 ! c)) True = Some (l1, True)"
      by (rule delete_loop_no_match[OF l1_seg nm])
    have "delete_loop item l None (head l) False = delete_loop item l prev (Some c) False"
      unfolding prev_def by (rule skip)
    also note step
    also note rest
    finally have loop: "delete_loop item l None (head l) False = Some (l1, True)" .
    from seg obtain h where h: "head l = Some h" by (cases pre) auto
    let ?l' = "l1\<lparr>ll_size := ll_size l1 - 1\<rparr>"
    have del: "ll_delete l item = Some (?l', Inr ())"
      unfolding ll_delete_def using hd_ne h loop by simp
    have wf': "wf_chain ?l' (pre @ post)"
      using l1_wf by (simp add: wf_chain_def)
    have ent': "entries (nodes ?l') (pre @ post) = xs @ ys"
      using l1_all by simp
    have len': "length (pre @ post) + 1 = length as"
      using arg_cong[OF as, of length] by simp
    have sz': "ll_size ?l' = ll_size l - 1"
      using l1_size by simp
    from del wf' ent' len' sz' show ?thesis by blast
  qed
qed

section \<open>Properties of the list operations\<close>

lemmas chain_defs =
  chain_A_def chain_AB_def chain_ABA_def chain_AA_def chain_AA_deleted_def
  ll_append_def LinkedList_init_def Let_def

text \<open>
  Claim C5. Every list operation keeps the count equal to the number of nodes reachable
  from \<^verbatim>\<open>head\<close>. The code breaks this: \<^verbatim>\<open>delete('C')\<close> on the list
  \<^verbatim>\<open>['A', 'B']\<close> raises \<^verbatim>\<open>ValueError\<close>, removes no node, and
  leaves the count at 1 with two nodes reachable.
\<close>

theorem ll_delete_absent_breaks_count:
  "\<exists>l'. ll_delete chain_AB ''C'' = Some (l', Inl ValueError) \<and>
        ll_items chain_AB = Some [''A'', ''B''] \<and> ll_length chain_AB = 2 \<and>
        ll_items l' = Some [''A'', ''B''] \<and> ll_length l' = 1"
  by (simp add: chain_defs ll_delete_def delete_loop.simps ll_items_def items_loop.simps
      ll_length_def)




text \<open>
  Claim C7. \<^verbatim>\<open>delete\<close> removes exactly the first node holding the entry and
  leaves later nodes with an equal entry in place. The code breaks this:
  \<^verbatim>\<open>delete('A')\<close> on \<^verbatim>\<open>['A', 'B', 'A']\<close> returns normally, unlinks
  both nodes holding \<^verbatim>\<open>'A'\<close>, and decrements the count once.
\<close>

theorem ll_delete_duplicate_removes_two:
  "\<exists>l'. ll_delete chain_ABA ''A'' = Some (l', Inr ()) \<and>
        ll_items chain_ABA = Some [''A'', ''B'', ''A''] \<and> ll_length chain_ABA = 3 \<and>
        ll_items l' = Some [''B''] \<and> ll_length l' = 2"
  by (simp add: chain_defs ll_delete_def delete_loop.simps unlink_def ll_items_def
      items_loop.simps ll_length_def)

text \<open>
  Claim C10. When \<^verbatim>\<open>items()\<close> returns and the given entry is not among the
  items, \<^verbatim>\<open>delete\<close> raises \<^verbatim>\<open>ValueError\<close> and leaves every node,
  \<^verbatim>\<open>head\<close> and \<^verbatim>\<open>tail\<close> as they were, so \<^verbatim>\<open>items()\<close>
  is the same afterwards; only the count may differ.
\<close>

theorem ll_delete_absent_frame:
  assumes "ll_items l = Some xs" and "item \<notin> set xs"
  shows "\<exists>l'. ll_delete l item = Some (l', Inl ValueError) \<and>
           nodes l' = nodes l \<and> head l' = head l \<and> tail l' = tail l \<and>
           ll_items l' = Some xs"
proof -
  from assms(1) obtain as where seg: "lseg (nodes l) (head l) as None"
    and xs: "xs = entries (nodes l) as"
    using items_loop_Some[of "nodes l" "head l" "[]" xs] by (auto simp: ll_items_def)
  from assms(2) xs have nm: "item \<notin> set (entries (nodes l) as)" by simp
  show ?thesis
  proof (cases "head l")
    case None
    with assms(1) show ?thesis by (simp add: ll_delete_def)
  next
    case (Some c)
    with seg obtain bs where as: "as = c # bs" by (cases as) auto
    with seg nm have c: "c < length (nodes l)" "data (nodes l ! c) \<noteq> item" by auto
    show ?thesis
    proof (cases "head l = tail l")
      case True
      with Some c assms(1) show ?thesis by (simp add: ll_delete_def)
    next
      case False
      have "delete_loop item l None (head l) False = Some (l, False)"
        by (rule delete_loop_no_match[OF seg nm])
      with Some False
      have "ll_delete l item = Some (l\<lparr>ll_size := ll_size l - 1\<rparr>, Inl ValueError)"
        by (simp add: ll_delete_def)
      moreover have "ll_items (l\<lparr>ll_size := ll_size l - 1\<rparr>) = Some xs"
        using assms(1) by (simp add: ll_items_def)
      ultimately show ?thesis by simp
    qed
  qed
qed

theorem ll_delete_absent_frame_witness:
  "ll_items chain_AB = Some [''A'', ''B''] \<and> ''Z'' \<notin> set [''A'', ''B''] \<and>
   (\<exists>l'. ll_delete chain_AB ''Z'' = Some (l', Inl ValueError) \<and>
      nodes l' = nodes chain_AB \<and> head l' = head chain_AB \<and> tail l' = tail chain_AB \<and>
      ll_items l' = Some [''A'', ''B''])"
proof -
  have h1: "ll_items chain_AB = Some [''A'', ''B'']"
    by (simp add: chain_defs ll_items_def items_loop.simps)
  have h2: "''Z'' \<notin> set [''A'', ''B'']" by simp
  from ll_delete_absent_frame[OF h1 h2] h1 h2 show ?thesis by blast
qed

section \<open>Buckets and the table invariant\<close>

subsection \<open>The scan of a bucket\<close>

lemma first_match_None: "first_match xs k = None \<longleftrightarrow> k \<notin> fst ` set xs"
  by (induction xs k rule: first_match.induct) auto

lemma first_match_Some:
  "first_match xs k = Some e \<Longrightarrow>
   fst e = k \<and> (\<exists>pre post. xs = pre @ e # post \<and> k \<notin> fst ` set pre)"
proof (induction xs k rule: first_match.induct)
  case (1 key)
  then show ?case by simp
next
  case (2 other_key other_value rest key)
  show ?case
  proof (cases "other_key = key")
    case True
    with 2(2) have "e = (other_key, other_value)" by simp
    with True show ?thesis by (auto intro: exI[of _ "[]"])
  next
    case False
    with 2 obtain pre post where "fst e = key" "rest = pre @ e # post" "key \<notin> fst ` set pre"
      by auto
    with False have "(other_key, other_value) # rest = ((other_key, other_value) # pre) @ e # post"
      "key \<notin> fst ` set ((other_key, other_value) # pre)" by auto
    with \<open>fst e = key\<close> show ?thesis by blast
  qed
qed


lemma sum_list_map_update:
  fixes f :: "'a \<Rightarrow> int"
  shows "i < length xs \<Longrightarrow>
    sum_list (map f (xs[i := y])) = sum_list (map f xs) - f (xs ! i) + f y"
proof (induction xs arbitrary: i)
  case Nil
  then show ?case by simp
next
  case (Cons x xs)
  then show ?case by (cases i) auto
qed

lemma bucket_index_Inr:
  "buckets t \<noteq> [] \<Longrightarrow>
   \<exists>i. bucket_index h t k = Inr i \<and> i < length (buckets t) \<and>
       i = nat (h k mod int (length (buckets t)))"
proof -
  assume "buckets t \<noteq> []"
  then have pos: "0 < int (length (buckets t))" by simp
  then have "0 \<le> h k mod int (length (buckets t))" "h k mod int (length (buckets t)) < int (length (buckets t))"
    by simp_all
  then have "nat (h k mod int (length (buckets t))) < length (buckets t)" by linarith
  with \<open>buckets t \<noteq> []\<close> show ?thesis by (simp add: bucket_index_def)
qed

subsection \<open>One bucket\<close>

lemma bucket_inv_items:
  assumes "bucket_inv h n i b"
  shows "\<exists>xs. ll_items b = Some xs \<and> distinct (map fst xs) \<and>
           (\<forall>e\<in>set xs. nat (h (fst e) mod int n) = i) \<and> ll_size b = int (length xs)"
proof -
  from assms obtain as where "wf_chain b as" "distinct (map fst (entries (nodes b) as))"
    "\<forall>e\<in>set (entries (nodes b) as). nat (h (fst e) mod int n) = i" "ll_size b = int (length as)"
    unfolding bucket_inv_def by blast
  with wf_chain_items[of b as] show ?thesis by simp
qed

lemma bucket_inv_init: "bucket_inv h n i LinkedList_init"
  unfolding bucket_inv_def
  by (rule exI[of _ "[]"]) (simp add: wf_chain_def LinkedList_init_def)

lemma bucket_append:
  assumes inv: "bucket_inv h n i b" and items: "ll_items b = Some xs"
    and absent: "k \<notin> fst ` set xs" and idx: "nat (h k mod int n) = i"
  shows "bucket_inv h n i (ll_append b (k, v))"
    and "ll_items (ll_append b (k, v)) = Some (xs @ [(k, v)])"
    and "ll_size (ll_append b (k, v)) = ll_size b + 1"
proof -
  from inv obtain as where wf: "wf_chain b as"
    and d: "distinct (map fst (entries (nodes b) as))"
    and ix: "\<forall>e\<in>set (entries (nodes b) as). nat (h (fst e) mod int n) = i"
    and sz: "ll_size b = int (length as)"
    unfolding bucket_inv_def by blast
  from wf_chain_items[OF wf] items have xs: "entries (nodes b) as = xs" by simp
  let ?b = "ll_append b (k, v)" and ?as = "as @ [length (nodes b)]"
  note ap = ll_append_wf[OF wf, of "(k, v)"]
  have e: "entries (nodes ?b) ?as = xs @ [(k, v)]" using ap(2) xs by simp
  show "ll_items ?b = Some (xs @ [(k, v)])"
    using wf_chain_items[OF ap(1)] e by simp
  show "ll_size ?b = ll_size b + 1" by (rule ap(3))
  have "distinct (map fst (entries (nodes ?b) ?as))"
    unfolding e using d absent xs by simp
  moreover have "\<forall>e\<in>set (entries (nodes ?b) ?as). nat (h (fst e) mod int n) = i"
    unfolding e using ix idx xs by auto
  moreover have "ll_size ?b = int (length ?as)" using ap(3) sz by simp
  ultimately show "bucket_inv h n i ?b"
    unfolding bucket_inv_def using ap(1) by blast
qed

lemma bucket_replace:
  assumes inv: "bucket_inv h n i b" and items: "ll_items b = Some xs"
    and found: "first_match xs k = Some (k', v')"
  shows "\<exists>b'. ll_replace b (k', v') (k, v) = Some (b', Inr ()) \<and> bucket_inv h n i b' \<and>
           ll_items b' = Some (map (\<lambda>e. if fst e = k then (k, v) else e) xs) \<and>
           ll_size b' = ll_size b"
proof -
  from inv obtain as where wf: "wf_chain b as"
    and d: "distinct (map fst (entries (nodes b) as))"
    and ix: "\<forall>e\<in>set (entries (nodes b) as). nat (h (fst e) mod int n) = i"
    and sz: "ll_size b = int (length as)"
    unfolding bucket_inv_def by blast
  from wf_chain_items[OF wf] items have xs: "entries (nodes b) as = xs" by simp
  from first_match_Some[OF found] obtain pre post where k': "k' = k"
    and split: "xs = pre @ (k', v') # post" and pre: "k \<notin> fst ` set pre"
    by auto
  from d xs split k' have post: "k \<notin> fst ` set post" by auto
  from pre have npre: "(k', v') \<notin> set pre" using k' by (auto simp: rev_image_eqI)
  from ll_replace_present[OF wf xs[unfolded split] npre, of "(k, v)"]
  obtain b' where r: "ll_replace b (k', v') (k, v) = Some (b', Inr ())"
    and wf': "wf_chain b' as" and e': "entries (nodes b') as = pre @ (k, v) # post"
    and sz': "ll_size b' = ll_size b" by blast
  have m: "map (\<lambda>e. if fst e = k then (k, v) else e) xs = pre @ (k, v) # post"
    unfolding split using pre post k' by (auto simp: rev_image_eqI intro!: map_idI)
  have "distinct (map fst (entries (nodes b') as))"
    unfolding e' using d xs split k' by simp
  moreover have "\<forall>e\<in>set (entries (nodes b') as). nat (h (fst e) mod int n) = i"
    unfolding e' using ix xs split k' by auto
  ultimately have "bucket_inv h n i b'"
    unfolding bucket_inv_def using wf' sz sz' by auto
  with r sz' wf_chain_items[OF wf'] e' m show ?thesis by simp
qed

lemma bucket_delete:
  assumes inv: "bucket_inv h n i b" and items: "ll_items b = Some xs"
    and found: "first_match xs k = Some (k', v')"
  shows "\<exists>b'. ll_delete b (k', v') = Some (b', Inr ()) \<and> bucket_inv h n i b' \<and>
           ll_items b' = Some (filter (\<lambda>e. fst e \<noteq> k) xs) \<and>
           ll_size b' = ll_size b - 1"
proof -
  from inv obtain as where wf: "wf_chain b as"
    and d: "distinct (map fst (entries (nodes b) as))"
    and ix: "\<forall>e\<in>set (entries (nodes b) as). nat (h (fst e) mod int n) = i"
    and sz: "ll_size b = int (length as)"
    unfolding bucket_inv_def by blast
  from wf_chain_items[OF wf] items have xs: "entries (nodes b) as = xs" by simp
  from first_match_Some[OF found] obtain pre post where k': "k' = k"
    and split: "xs = pre @ (k', v') # post" and pre: "k \<notin> fst ` set pre"
    by auto
  from d xs split k' have post: "k \<notin> fst ` set post" by auto
  from pre have npre: "(k', v') \<notin> set pre" using k' by (auto simp: rev_image_eqI)
  from post have npost: "(k', v') \<notin> set post" using k' by (auto simp: rev_image_eqI)
  from ll_delete_single[OF wf xs[unfolded split] npre npost]
  obtain b' as' where r: "ll_delete b (k', v') = Some (b', Inr ())"
    and wf': "wf_chain b' as'" and e': "entries (nodes b') as' = pre @ post"
    and len: "length as' + 1 = length as"
    and sz': "ll_size b' = ll_size b - 1" by blast
  have "filter (\<lambda>e. fst e \<noteq> k) pre = pre" "filter (\<lambda>e. fst e \<noteq> k) post = post"
    using pre post by (auto simp: filter_id_conv)
  then have f: "filter (\<lambda>e. fst e \<noteq> k) xs = pre @ post"
    unfolding split using k' by simp
  have "distinct (map fst (entries (nodes b') as'))"
    unfolding e' using d xs split by simp
  moreover have "\<forall>e\<in>set (entries (nodes b') as'). nat (h (fst e) mod int n) = i"
    unfolding e' using ix xs split by auto
  moreover have "ll_size b' = int (length as')" using sz sz' len by simp
  ultimately have "bucket_inv h n i b'"
    unfolding bucket_inv_def using wf' by blast
  with r sz' wf_chain_items[OF wf'] e' f show ?thesis by simp
qed


subsection \<open>The table invariant\<close>

lemma ll_size_init: "ll_size LinkedList_init = 0"
  by (simp add: LinkedList_init_def)

lemma table_inv_init: "table_inv h (HashTable_init init_size)"
  by (simp add: table_inv_def HashTable_init_def bucket_inv_init sum_list_replicate
      ll_size_init)

lemma table_inv_update:
  assumes inv: "table_inv h t" and i: "i < length (buckets t)"
    and b: "bucket_inv h (length (buckets t)) i b"
    and sz: "s = ht_size t - ll_size (buckets t ! i) + ll_size b"
  shows "table_inv h (t\<lparr>buckets := (buckets t)[i := b], ht_size := s\<rparr>)"
proof -
  have "bucket_inv h (length (buckets t)) j ((buckets t)[i := b] ! j)"
    if "j < length (buckets t)" for j
    using that inv b by (cases "j = i") (simp_all add: table_inv_def)
  moreover have "s = sum_list (map ll_size ((buckets t)[i := b]))"
    using inv sz sum_list_map_update[OF i, of ll_size b] by (simp add: table_inv_def)
  ultimately show ?thesis by (simp add: table_inv_def)
qed

lemma ht_lookup_spec:
  assumes "bucket_index h t k = Inr i" and "ll_items (buckets t ! i) = Some xs"
  shows "ht_contains h t k = Some (Inr (k \<in> fst ` set xs))"
    and "ht_get h t k =
           Some (case first_match xs k of Some e \<Rightarrow> Inr (snd e) | None \<Rightarrow> Inl KeyError)"
proof -
  show "ht_contains h t k = Some (Inr (k \<in> fst ` set xs))"
    using assms first_match_None[of xs k]
    by (cases "first_match xs k") (auto simp: ht_contains_def)
  show "ht_get h t k =
           Some (case first_match xs k of Some e \<Rightarrow> Inr (snd e) | None \<Rightarrow> Inl KeyError)"
    using assms by (cases "first_match xs k") (auto simp: ht_get_def)
qed

lemma ht_set_spec:
  assumes inv: "table_inv h t" and idx: "bucket_index h t k = Inr i"
    and xs: "ll_items (buckets t ! i) = Some xs"
  shows "\<exists>t'. ht_set h t k v = Some (t', Inr ()) \<and> table_inv h t' \<and>
           length (buckets t') = length (buckets t) \<and>
           (\<forall>j. j \<noteq> i \<longrightarrow> buckets t' ! j = buckets t ! j) \<and>
           ll_items (buckets t' ! i) =
             Some (if k \<in> fst ` set xs
                   then map (\<lambda>e. if fst e = k then (k, v) else e) xs
                   else xs @ [(k, v)]) \<and>
           ht_size t' = (if k \<in> fst ` set xs then ht_size t else ht_size t + 1)"
proof -
  let ?n = "length (buckets t)" and ?b = "buckets t ! i"
  from idx have ne: "buckets t \<noteq> []" by (auto simp: bucket_index_def split: if_splits)
  from bucket_index_Inr[OF ne, of h k] idx
  have i: "i < ?n" "nat (h k mod int ?n) = i" by auto
  from inv i have binv: "bucket_inv h ?n i ?b" by (simp add: table_inv_def)
  show ?thesis
  proof (cases "first_match xs k")
    case None
    then have absent: "k \<notin> fst ` set xs" by (simp add: first_match_None)
    note ap = bucket_append[OF binv xs absent i(2), of v]
    let ?t' = "t\<lparr>buckets := (buckets t)[i := ll_append ?b (k, v)], ht_size := ht_size t + 1\<rparr>"
    have "ht_set h t k v = Some (?t', Inr ())"
      using idx xs None by (simp add: ht_set_def)
    moreover have "table_inv h ?t'"
      by (rule table_inv_update[OF inv i(1) ap(1)]) (simp add: ap(3))
    ultimately show ?thesis using absent i(1) ap(2) by simp
  next
    case (Some e)
    obtain k' v' where e: "e = (k', v')" by (cases e)
    from Some have present: "k \<in> fst ` set xs"
      using first_match_None[of xs k] by auto
    from bucket_replace[OF binv xs Some[unfolded e], of v]
    obtain b' where r: "ll_replace ?b (k', v') (k, v) = Some (b', Inr ())"
      and b': "bucket_inv h ?n i b'"
      and it: "ll_items b' = Some (map (\<lambda>e. if fst e = k then (k, v) else e) xs)"
      and sz: "ll_size b' = ll_size ?b" by blast
    let ?t' = "t\<lparr>buckets := (buckets t)[i := b']\<rparr>"
    have "ht_set h t k v = Some (?t', Inr ())"
      using idx xs Some e r by (simp add: ht_set_def)
    moreover have "table_inv h (t\<lparr>buckets := (buckets t)[i := b'], ht_size := ht_size t\<rparr>)"
      by (rule table_inv_update[OF inv i(1) b']) (simp add: sz)
    ultimately show ?thesis using present i(1) it by simp
  qed
qed

lemma ht_delete_spec:
  assumes inv: "table_inv h t" and idx: "bucket_index h t k = Inr i"
    and xs: "ll_items (buckets t ! i) = Some xs"
  shows "if k \<in> fst ` set xs
         then \<exists>t'. ht_delete h t k = Some (t', Inr ()) \<and> table_inv h t' \<and>
                length (buckets t') = length (buckets t) \<and>
                (\<forall>j. j \<noteq> i \<longrightarrow> buckets t' ! j = buckets t ! j) \<and>
                ll_items (buckets t' ! i) = Some (filter (\<lambda>e. fst e \<noteq> k) xs) \<and>
                ht_size t' = ht_size t - 1
         else ht_delete h t k = Some (t, Inl KeyError)"
proof -
  let ?n = "length (buckets t)" and ?b = "buckets t ! i"
  from idx have ne: "buckets t \<noteq> []" by (auto simp: bucket_index_def split: if_splits)
  from bucket_index_Inr[OF ne, of h k] idx
  have i: "i < ?n" "nat (h k mod int ?n) = i" by auto
  from inv i have binv: "bucket_inv h ?n i ?b" by (simp add: table_inv_def)
  show ?thesis
  proof (cases "first_match xs k")
    case None
    then have absent: "k \<notin> fst ` set xs" by (simp add: first_match_None)
    have "ht_delete h t k = Some (t, Inl KeyError)"
      using idx xs None by (simp add: ht_delete_def)
    with absent show ?thesis by simp
  next
    case (Some e)
    obtain k' v' where e: "e = (k', v')" by (cases e)
    from Some have present: "k \<in> fst ` set xs"
      using first_match_None[of xs k] by auto
    from bucket_delete[OF binv xs Some[unfolded e]]
    obtain b' where r: "ll_delete ?b (k', v') = Some (b', Inr ())"
      and b': "bucket_inv h ?n i b'"
      and it: "ll_items b' = Some (filter (\<lambda>e. fst e \<noteq> k) xs)"
      and sz: "ll_size b' = ll_size ?b - 1" by blast
    let ?t' = "t\<lparr>buckets := (buckets t)[i := b'], ht_size := ht_size t - 1\<rparr>"
    have "ht_delete h t k = Some (?t', Inr ())"
      using idx xs Some e r by (simp add: ht_delete_def)
    moreover have "table_inv h ?t'"
      by (rule table_inv_update[OF inv i(1) b']) (simp add: sz)
    ultimately show ?thesis using present i(1) it by simp
  qed
qed

lemma table_inv_bucket_items:
  assumes "table_inv h t" and "i < length (buckets t)"
  shows "\<exists>xs. ll_items (buckets t ! i) = Some xs"
  using assms bucket_inv_items[of h "length (buckets t)" i "buckets t ! i"]
  by (auto simp: table_inv_def)

lemma ht_set_preserves:
  assumes "table_inv h t" and "ht_set h t k v = Some (t', r)"
  shows "table_inv h t'"
proof (cases "bucket_index h t k")
  case (Inl e)
  with assms show ?thesis by (simp add: ht_set_def)
next
  case (Inr i)
  then have ne: "buckets t \<noteq> []" by (auto simp: bucket_index_def split: if_splits)
  from bucket_index_Inr[OF ne, of h k] Inr have "i < length (buckets t)" by auto
  from table_inv_bucket_items[OF assms(1) this] obtain xs
    where "ll_items (buckets t ! i) = Some xs" ..
  from ht_set_spec[OF assms(1) Inr this, of v] assms(2) show ?thesis by auto
qed

lemma ht_delete_preserves:
  assumes "table_inv h t" and "ht_delete h t k = Some (t', r)"
  shows "table_inv h t'"
proof (cases "bucket_index h t k")
  case (Inl e)
  with assms show ?thesis by (simp add: ht_delete_def)
next
  case (Inr i)
  then have ne: "buckets t \<noteq> []" by (auto simp: bucket_index_def split: if_splits)
  from bucket_index_Inr[OF ne, of h k] Inr have "i < length (buckets t)" by auto
  from table_inv_bucket_items[OF assms(1) this] obtain xs
    where "ll_items (buckets t ! i) = Some xs" ..
  from ht_delete_spec[OF assms(1) Inr this] assms show ?thesis
    by (auto split: if_splits)
qed

lemma reachable_inv: "reachable h t \<Longrightarrow> table_inv h t"
  by (induction rule: reachable.induct)
     (auto intro: table_inv_init ht_set_preserves ht_delete_preserves)

subsection \<open>All items of a table\<close>

lemma items_buckets_concat:
  "list_all2 (\<lambda>b xs. ll_items b = Some xs) bs xss \<Longrightarrow>
   items_buckets bs acc = Some (acc @ concat xss)"
  by (induction bs xss arbitrary: acc rule: list_all2_induct) auto

lemma sum_sizes_concat:
  "list_all2 (\<lambda>b xs. ll_size b = int (length xs)) bs xss \<Longrightarrow>
   sum_list (map ll_size bs) = int (length (concat xss))"
  by (induction bs xss rule: list_all2_induct) auto

lemma distinct_keys_concat:
  assumes "\<forall>i<length xss. distinct (map fst (xss ! i))"
    and "\<forall>i<length xss. \<forall>e\<in>set (xss ! i). g (fst e) = i"
  shows "distinct (map fst (concat xss))"
  using assms
proof (induction xss rule: rev_induct)
  case Nil
  then show ?case by simp
next
  case (snoc xs xss)
  have d: "\<forall>i<length xss. distinct (map fst (xss ! i))"
  proof (intro allI impI)
    fix i assume "i < length xss"
    with snoc.prems(1)[rule_format, of i] show "distinct (map fst (xss ! i))"
      by (simp add: nth_append)
  qed
  have g: "\<forall>i<length xss. \<forall>e\<in>set (xss ! i). g (fst e) = i"
  proof (intro allI impI)
    fix i assume "i < length xss"
    with snoc.prems(2)[rule_format, of i] show "\<forall>e\<in>set (xss ! i). g (fst e) = i"
      by (simp add: nth_append)
  qed
  from snoc.prems(1)[rule_format, of "length xss"] have dx: "distinct (map fst xs)"
    by simp
  from snoc.prems(2)[rule_format, of "length xss"]
  have gx: "\<forall>e\<in>set xs. g (fst e) = length xss"
    by simp
  have "fst ` set (concat xss) \<inter> fst ` set xs = {}"
  proof (rule ccontr)
    assume "fst ` set (concat xss) \<inter> fst ` set xs \<noteq> {}"
    then obtain k where "k \<in> fst ` set (concat xss)" "k \<in> fst ` set xs" by blast
    then obtain e e' where e: "e \<in> set (concat xss)" "e' \<in> set xs" "fst e = fst e'"
      by (elim imageE) simp
    from e(1) obtain ys where "ys \<in> set xss" "e \<in> set ys" by auto
    moreover from this(1) obtain i where "i < length xss" "xss ! i = ys"
      unfolding in_set_conv_nth by blast
    ultimately obtain i where "i < length xss" "e \<in> set (xss ! i)"
      by blast
    with g have "g (fst e) = i" by blast
    moreover from gx e(2) have "g (fst e') = length xss" by blast
    ultimately show False using e(3) \<open>i < length xss\<close> by simp
  qed
  with snoc.IH[OF d g] dx show ?case by simp
qed


lemma ht_items_spec:
  assumes inv: "table_inv h t"
  shows "\<exists>its. ht_items t = Some its \<and> int (length its) = ht_size t \<and>
           distinct (map fst its) \<and>
           (\<forall>i xs. i < length (buckets t) \<and> ll_items (buckets t ! i) = Some xs
                \<longrightarrow> set xs \<subseteq> set its)"
proof -
  let ?n = "length (buckets t)"
  define xss where "xss = map (\<lambda>b. the (ll_items b)) (buckets t)"
  have len: "length xss = ?n" by (simp add: xss_def)
  have row: "ll_items (buckets t ! i) = Some (xss ! i) \<and> distinct (map fst (xss ! i)) \<and>
      (\<forall>e\<in>set (xss ! i). nat (h (fst e) mod int ?n) = i) \<and>
      ll_size (buckets t ! i) = int (length (xss ! i))" if "i < ?n" for i
  proof -
    from inv that have "bucket_inv h ?n i (buckets t ! i)" by (simp add: table_inv_def)
    from bucket_inv_items[OF this] that show ?thesis by (auto simp: xss_def)
  qed
  have a1: "list_all2 (\<lambda>b xs. ll_items b = Some xs) (buckets t) xss"
    using row len by (simp add: list_all2_conv_all_nth)
  have a2: "list_all2 (\<lambda>b xs. ll_size b = int (length xs)) (buckets t) xss"
    using row len by (simp add: list_all2_conv_all_nth)
  have d: "distinct (map fst (concat xss))"
    by (rule distinct_keys_concat[where g = "\<lambda>k. nat (h k mod int ?n)"]) (use row len in auto)
  have items: "ht_items t = Some (concat xss)"
    using items_buckets_concat[OF a1, of "[]"] by (simp add: ht_items_def)
  have size: "int (length (concat xss)) = ht_size t"
    using sum_sizes_concat[OF a2] inv by (simp add: table_inv_def)
  have sub: "set xs \<subseteq> set (concat xss)"
    if "i < ?n" "ll_items (buckets t ! i) = Some xs" for i xs
  proof -
    from row[OF that(1)] that(2) have "xs = xss ! i" by simp
    moreover from that(1) len have "xss ! i \<in> set xss" by simp
    ultimately show ?thesis by auto
  qed
  from items size d sub show ?thesis by blast
qed

section \<open>Properties of the table operations\<close>

subsection \<open>Evaluation of the concrete tables, and totality\<close>

lemma replicate_two: "replicate 2 x = [x, x]"
  by (simp add: numeral_2_eq_2)

lemmas table_defs = table_none_def table_empty_def table_one_def HashTable_init_def
  hash_int_def bucket_index_def replicate_two

lemma table_one_set: "ht_set hash_int table_empty 1 5 = Some (table_one, Inr ())"
  by (simp add: table_defs ht_set_def ll_items_def items_loop.simps LinkedList_init_def)

lemma table_one_reachable: "reachable hash_int table_one"
  using reachable_set[OF reachable_init table_one_set[unfolded table_empty_def]] .







subsection \<open>set and get\<close>




subsection \<open>delete\<close>

text \<open>
  Claim C2, as stated for every table, fails on a table without buckets: no key is
  present in \<^verbatim>\<open>HashTable(0)\<close>, and \<^verbatim>\<open>delete(1)\<close> raises
  \<^verbatim>\<open>ZeroDivisionError\<close>, not \<^verbatim>\<open>KeyError\<close>.
\<close>

theorem ht_delete_no_buckets:
  "ht_items table_none = Some [] \<and>
   ht_delete hash_int table_none 1 = Some (table_none, Inl ZeroDivisionError)"
  by (simp add: table_defs ht_delete_def ht_items_def)

text \<open>
  Claim C2, amended to tables with at least one bucket. In every state of such a table:
  when \<open>k\<close> is present, \<^verbatim>\<open>delete(k)\<close> returns normally, afterwards
  \<^verbatim>\<open>contains(k)\<close> is false and \<^verbatim>\<open>length()\<close> is one less; when \<open>k\<close>
  is absent, \<^verbatim>\<open>delete(k)\<close> raises \<^verbatim>\<open>KeyError\<close> and the table is
  unchanged.
\<close>

theorem ht_delete_present_or_absent:
  assumes reach: "reachable h t" and ne: "buckets t \<noteq> []"
  shows "\<exists>present. ht_contains h t k = Some (Inr present) \<and>
           (if present
            then \<exists>t'. ht_delete h t k = Some (t', Inr ()) \<and>
                   ht_contains h t' k = Some (Inr False) \<and> ht_length t' = ht_length t - 1
            else ht_delete h t k = Some (t, Inl KeyError))"
proof -
  from reach have inv: "table_inv h t" by (rule reachable_inv)
  from bucket_index_Inr[OF ne, of h k] obtain i where idx: "bucket_index h t k = Inr i"
    and i: "i < length (buckets t)" by blast
  from table_inv_bucket_items[OF inv i] obtain xs where xs: "ll_items (buckets t ! i) = Some xs" ..
  have cont: "ht_contains h t k = Some (Inr (k \<in> fst ` set xs))"
    by (rule ht_lookup_spec(1)[OF idx xs])
  note del = ht_delete_spec[OF inv idx xs]
  show ?thesis
  proof (cases "k \<in> fst ` set xs")
    case True
    with del obtain t' where d: "ht_delete h t k = Some (t', Inr ())"
      and len: "length (buckets t') = length (buckets t)"
      and xs': "ll_items (buckets t' ! i) = Some (filter (\<lambda>e. fst e \<noteq> k) xs)"
      and sz: "ht_size t' = ht_size t - 1" by auto
    from idx len have idx': "bucket_index h t' k = Inr i"
      by (simp add: bucket_index_def split: if_splits)
    have "ht_contains h t' k = Some (Inr False)"
      using ht_lookup_spec(1)[OF idx' xs'] by auto
    with d sz cont True show ?thesis
      by (intro exI[of _ True]) (simp add: ht_length_def)
  next
    case False
    with del cont show ?thesis by (intro exI[of _ False]) simp
  qed
qed

theorem ht_delete_present_or_absent_witness:
  "reachable hash_int table_one \<and> buckets table_one \<noteq> [] \<and>
   (\<exists>present. ht_contains hash_int table_one 1 = Some (Inr present) \<and>
      (if present
       then \<exists>t'. ht_delete hash_int table_one 1 = Some (t', Inr ()) \<and>
              ht_contains hash_int t' 1 = Some (Inr False) \<and>
              ht_length t' = ht_length table_one - 1
       else ht_delete hash_int table_one 1 = Some (table_one, Inl KeyError)))"
proof -
  have ne: "buckets table_one \<noteq> []" by (simp add: table_one_def)
  from ht_delete_present_or_absent[OF table_one_reachable ne, of 1] table_one_reachable ne
  show ?thesis by simp
qed

subsection \<open>set twice\<close>




subsection \<open>items and length\<close>

text \<open>
  Claim C4. In every state reachable from a new table by calls of \<^verbatim>\<open>set\<close>
  and \<^verbatim>\<open>delete\<close>, \<^verbatim>\<open>items()\<close> returns exactly
  \<^verbatim>\<open>length()\<close> pairs, and their keys are pairwise distinct.
\<close>

theorem ht_items_length_distinct:
  assumes "reachable h t"
  shows "\<exists>its. ht_items t = Some its \<and> int (length its) = ht_length t \<and>
           distinct (map fst its)"
  using ht_items_spec[OF reachable_inv[OF assms]] unfolding ht_length_def by blast

theorem ht_items_length_distinct_witness:
  "reachable hash_int table_one \<and>
   (\<exists>its. ht_items table_one = Some its \<and> int (length its) = ht_length table_one \<and>
      distinct (map fst its))"
  using ht_items_length_distinct[OF table_one_reachable] table_one_reachable by simp

subsection \<open>One bucket per operation\<close>



subsection \<open>The special methods\<close>

text \<open>
  Claim C9. \<^verbatim>\<open>table[k]\<close> is \<^verbatim>\<open>get(k)\<close> (same result, same failure),
  \<^verbatim>\<open>table[k] = v\<close> is \<^verbatim>\<open>set(k, v)\<close>, \<^verbatim>\<open>k in table\<close> is
  \<^verbatim>\<open>contains(k)\<close>, and \<^verbatim>\<open>len(table)\<close> is \<^verbatim>\<open>length()\<close>.
\<close>

theorem sugar_is_named_operation:
  "ht_getitem h t k = ht_get h t k \<and> ht_setitem h t k v = ht_set h t k v \<and>
   ht_contains_op h t k = ht_contains h t k \<and> ht_len t = ht_length t"
  by (simp add: ht_getitem_def ht_setitem_def ht_contains_op_def ht_len_def ht_length_def)

end
